theory Spec2Isabelle
  imports Main "HOL-Library.AList"
begin

section \<open>The k-Sequitur grammar induction of \<^verbatim>\<open>utilities/grammar_algorithms/k_Sequitur.py\<close>\<close>

subsection \<open>Symbols, dictionaries and the engine object\<close>

text \<open>
  The sequences hold Python integers (the raw actions) and Python strings (the rule names
  \<^verbatim>\<open>"R0"\<close>, \<^verbatim>\<open>"R1"\<close>, ... and the default end-of-episode symbol \<^verbatim>\<open>"/"\<close>).
  An integer never equals a string.
\<close>

datatype symbol = PyInt int | PyStr string

fun is_Int :: "symbol \<Rightarrow> bool" where
  "is_Int (PyInt i) = True"
| "is_Int (PyStr s) = False"

type_synonym pair = "symbol \<times> symbol"

text \<open>
  A Python \<^verbatim>\<open>dict\<close> keeps its keys in insertion order, and two loops of the source iterate
  over dictionaries, so a dictionary is an association list with distinct keys:
  \<^const>\<open>map_of\<close> reads it and \<^const>\<open>AList.update\<close> is \<^verbatim>\<open>d[key] = value\<close>
  (the value is replaced in place when the key exists, the entry is appended otherwise).
\<close>

type_synonym rules = "(symbol \<times> pair) list"
type_synonym reverse_rules = "(pair \<times> symbol) list"
type_synonym usage = "(symbol \<times> int) list"
type_synonym action_usage = "(symbol list \<times> int) list"

text \<open>Reading a \<^verbatim>\<open>defaultdict(int)\<close>: a missing key reads as 0.\<close>

definition dict_get0 :: "('a \<times> int) list \<Rightarrow> 'a \<Rightarrow> int" where
  "dict_get0 d key = (case map_of d key of None \<Rightarrow> 0 | Some c \<Rightarrow> c)"

text \<open>\<^verbatim>\<open>d[key] += n\<close> on a \<^verbatim>\<open>defaultdict(int)\<close>.\<close>

definition dict_add :: "('a \<times> int) list \<Rightarrow> 'a \<Rightarrow> int \<Rightarrow> ('a \<times> int) list" where
  "dict_add d key n = AList.update key (dict_get0 d key + n) d"

text \<open>\<^verbatim>\<open>d.update(e)\<close>: the entries of \<open>e\<close> are stored into \<open>d\<close> in order.\<close>

definition dict_update :: "('a \<times> 'b) list \<Rightarrow> ('a \<times> 'b) list \<Rightarrow> ('a \<times> 'b) list" where
  "dict_update d e = fold (\<lambda>kv acc. AList.update (fst kv) (snd kv) acc) e d"

text \<open>
  Python list indexing with a possibly negative index: \<^verbatim>\<open>xs[-1]\<close> is the last element.
  It is only used by the layer builder at indices from \<open>-1\<close> to \<open>len(xs) - 3\<close> of a list of
  at least two elements, where Python does not raise.
\<close>

definition py_index :: "'a list \<Rightarrow> int \<Rightarrow> 'a" where
  "py_index xs i = (if i < 0 then xs ! nat (int (length xs) + i) else xs ! nat i)"

datatype error = AssertionError

text \<open>The object built by \<^verbatim>\<open>__init__\<close>: it stores its arguments and starts the counter at 0.\<close>

record k_Sequitur =
  k :: int
  end_of_episode_symbol :: symbol
  next_rule_name_ix :: nat

definition init :: "int \<Rightarrow> symbol \<Rightarrow> k_Sequitur" where
  "init kk eos = \<lparr>k = kk, end_of_episode_symbol = eos, next_rule_name_ix = 0\<rparr>"

subsection \<open>Rule names\<close>

definition digit_char :: "nat \<Rightarrow> char" where
  "digit_char d = char_of (48 + d)"

text \<open>The decimal numeral of a natural number, as \<^verbatim>\<open>"{}".format(n)\<close> prints it.\<close>

fun str_nat :: "nat \<Rightarrow> string" where
  "str_nat n = (if n < 10 then [digit_char n] else str_nat (n div 10) @ [digit_char (n mod 10)])"

declare str_nat.simps [simp del]

definition get_next_rule_name :: "k_Sequitur \<Rightarrow> symbol \<times> k_Sequitur" where
  "get_next_rule_name self =
     (PyStr (''R'' @ str_nat (next_rule_name_ix self)),
      self\<lparr>next_rule_name_ix := next_rule_name_ix self + 1\<rparr>)"

subsection \<open>The layer builder\<close>

record layer_state =
  pairs_of_symbols :: "pair \<Rightarrow> int"
  last_pair :: "pair option"
  skip_next_symbol :: bool
  layer_rules :: rules
  engine :: k_Sequitur

text \<open>One iteration of the \<^verbatim>\<open>for ix in range(len(string) - 1)\<close> loop.\<close>

definition layer_step :: "symbol list \<Rightarrow> nat \<Rightarrow> layer_state \<Rightarrow> layer_state" where
  "layer_step string ix st =
    (if skip_next_symbol st then st\<lparr>skip_next_symbol := False\<rparr>
     else if string ! (ix + 1) = end_of_episode_symbol (engine st) then st
     else
       let pair = (string ! ix, string ! (ix + 1));
           st1 = (if Some pair \<noteq> last_pair st
                  then st\<lparr>pairs_of_symbols := (pairs_of_symbols st)(pair := pairs_of_symbols st pair + 1),
                          last_pair := Some pair\<rparr>
                  else st\<lparr>last_pair := None\<rparr>)
       in if pairs_of_symbols st1 pair \<ge> k (engine st1) then
            let previous_pair = (py_index string (int ix - 1), string ! ix);
                st2 = st1\<lparr>pairs_of_symbols :=
                             (pairs_of_symbols st1)(previous_pair := pairs_of_symbols st1 previous_pair - 1),
                          skip_next_symbol := True\<rparr>
            in if pair \<notin> snd ` set (layer_rules st2) then
                 st2\<lparr>layer_rules := AList.update (fst (get_next_rule_name (engine st2))) pair (layer_rules st2),
                     engine := snd (get_next_rule_name (engine st2))\<rparr>
               else st2
          else st1)"

definition layer_init :: "k_Sequitur \<Rightarrow> layer_state" where
  "layer_init self =
     \<lparr>pairs_of_symbols = (\<lambda>p. 0), last_pair = None, skip_next_symbol = False,
      layer_rules = [], engine = self\<rparr>"

text \<open>
  The scan over \<^verbatim>\<open>range(len(string) - 1)\<close>, which is empty for the empty list as
  \<open>[0..<0 - 1]\<close> is.
\<close>

definition layer_scan :: "k_Sequitur \<Rightarrow> symbol list \<Rightarrow> layer_state" where
  "layer_scan self string = fold (layer_step string) [0..<length string - 1] (layer_init self)"

text \<open>\<^verbatim>\<open>{v: k for k, v in rules.items()}\<close>\<close>

definition invert_rules :: "rules \<Rightarrow> reverse_rules" where
  "invert_rules rls = fold (\<lambda>kv acc. AList.update (snd kv) (fst kv) acc) rls []"

definition generate_1_layer_of_rules ::
  "k_Sequitur \<Rightarrow> symbol list \<Rightarrow> (rules \<times> reverse_rules) \<times> k_Sequitur" where
  "generate_1_layer_of_rules self string =
     (let st = layer_scan self string
      in ((layer_rules st, invert_rules (layer_rules st)), engine st))"

subsection \<open>The rewriter\<close>

record rewrite_state =
  new_string :: "symbol list"
  skip_next_element :: bool
  rules_usage_count :: usage

text \<open>One iteration of the \<^verbatim>\<open>for ix in range(len(string))\<close> loop.\<close>

definition rewrite_step :: "symbol list \<Rightarrow> reverse_rules \<Rightarrow> nat \<Rightarrow> rewrite_state \<Rightarrow> rewrite_state" where
  "rewrite_step string rev_rules ix st =
    (if skip_next_element st then st\<lparr>skip_next_element := False\<rparr>
     else if int ix = int (length string) - 1 then st\<lparr>new_string := new_string st @ [string ! ix]\<rparr>
     else
       let pair = (string ! ix, string ! (ix + 1))
       in case map_of rev_rules pair of
            Some result \<Rightarrow>
              st\<lparr>rules_usage_count := dict_add (rules_usage_count st) result 1,
                 new_string := new_string st @ [result],
                 skip_next_element := True\<rparr>
          | None \<Rightarrow> st\<lparr>new_string := new_string st @ [string ! ix]\<rparr>)"

definition rewrite_init :: rewrite_state where
  "rewrite_init = \<lparr>new_string = [], skip_next_element = False, rules_usage_count = []\<rparr>"

definition rewrite_scan :: "symbol list \<Rightarrow> reverse_rules \<Rightarrow> rewrite_state" where
  "rewrite_scan string rev_rules = fold (rewrite_step string rev_rules) [0..<length string] rewrite_init"

definition convert_a_string_using_reverse_rules ::
  "symbol list \<Rightarrow> reverse_rules \<Rightarrow> symbol list \<times> usage" where
  "convert_a_string_using_reverse_rules string rev_rules =
     (let st = rewrite_scan string rev_rules in (new_string st, rules_usage_count st))"

subsection \<open>The expander\<close>

text \<open>One pass of the \<^verbatim>\<open>for symbol_val in symbol\<close> loop, appending to \<^verbatim>\<open>new_symbol\<close>.\<close>

definition expand_pass :: "rules \<Rightarrow> symbol list \<Rightarrow> symbol list" where
  "expand_pass rls symbol =
     fold (\<lambda>symbol_val new_symbol.
             case map_of rls symbol_val of
               Some rhs \<Rightarrow> new_symbol @ [fst rhs] @ [snd rhs]
             | None \<Rightarrow> new_symbol @ [symbol_val])
          symbol []"

text \<open>The \<^verbatim>\<open>while not finished\<close> loop; it need not end (a rule may mention its own name).\<close>

partial_function (option) expand_loop :: "rules \<Rightarrow> symbol list \<Rightarrow> symbol list option" where
  "expand_loop rls symbol =
     (let new_symbol = expand_pass rls symbol
      in if new_symbol = symbol then Some new_symbol else expand_loop rls new_symbol)"

declare expand_loop.simps [code]

definition convert_symbol_to_raw_actions :: "symbol \<Rightarrow> rules \<Rightarrow> symbol list option" where
  "convert_symbol_to_raw_actions symbol rls = expand_loop rls [symbol]"

subsection \<open>The fixpoint driver\<close>

text \<open>The body of the \<^verbatim>\<open>while new_actions != current_actions\<close> loop.\<close>

definition loop_body ::
  "k_Sequitur \<Rightarrow> rules \<Rightarrow> usage \<Rightarrow> symbol list \<Rightarrow> k_Sequitur \<times> rules \<times> usage \<times> symbol list" where
  "loop_body self all_rules rule_usage current_actions =
     (let layer = generate_1_layer_of_rules self current_actions;
          rls = fst (fst layer);
          rev_rules = snd (fst layer);
          self' = snd layer;
          all_rules' = dict_update all_rules rls;
          converted = convert_a_string_using_reverse_rules current_actions rev_rules;
          new_actions = fst converted;
          rules_usage_count = snd converted;
          rule_usage' = fold (\<lambda>key acc. dict_add acc key (dict_get0 rules_usage_count key))
                             (map fst rules_usage_count) rule_usage
      in (self', all_rules', rule_usage', new_actions))"

text \<open>
  The loop itself. \<open>current_actions\<close> is \<^verbatim>\<open>None\<close> before the first pass, which no list
  equals.
\<close>

partial_function (option) grammar_loop ::
  "k_Sequitur \<Rightarrow> rules \<Rightarrow> usage \<Rightarrow> symbol list option \<Rightarrow> symbol list
     \<Rightarrow> (symbol list \<times> rules \<times> usage \<times> k_Sequitur) option" where
  "grammar_loop self all_rules rule_usage current_actions new_actions =
     (if Some new_actions \<noteq> current_actions then
        grammar_loop (fst (loop_body self all_rules rule_usage new_actions))
                     (fst (snd (loop_body self all_rules rule_usage new_actions)))
                     (fst (snd (snd (loop_body self all_rules rule_usage new_actions))))
                     (Some new_actions)
                     (snd (snd (snd (loop_body self all_rules rule_usage new_actions))))
      else Some (new_actions, all_rules, rule_usage, self))"

declare grammar_loop.simps [code]

text \<open>
  The last loop, \<^verbatim>\<open>action_usage[convert_symbol_to_raw_actions(key, all_rules)] = rule_usage[key]\<close>
  over the keys of \<^verbatim>\<open>rule_usage\<close> in their order.
\<close>

fun build_action_usage :: "rules \<Rightarrow> usage \<Rightarrow> symbol list \<Rightarrow> action_usage \<Rightarrow> action_usage option" where
  "build_action_usage all_rules rule_usage [] acc = Some acc"
| "build_action_usage all_rules rule_usage (key # keys) acc =
     (case convert_symbol_to_raw_actions key all_rules of
        None \<Rightarrow> None
      | Some raw \<Rightarrow>
          build_action_usage all_rules rule_usage keys (AList.update raw (dict_get0 rule_usage key) acc))"

text \<open>
  The entry point. The result is \<open>None\<close> when the call does not return, \<open>Some (Inl e)\<close>
  when an assertion fails, and otherwise the returned triple with the engine as the call
  leaves it.
\<close>

definition generate_action_grammar ::
  "k_Sequitur \<Rightarrow> symbol list
     \<Rightarrow> (error + (symbol list \<times> rules \<times> action_usage) \<times> k_Sequitur) option" where
  "generate_action_grammar self actions =
     (if actions = [] then Some (Inl AssertionError)
      else if \<not> is_Int (hd actions) then Some (Inl AssertionError)
      else
        case grammar_loop self [] [] None actions of
          None \<Rightarrow> None
        | Some (new_actions, all_rules, rule_usage, self') \<Rightarrow>
            (case build_action_usage all_rules rule_usage (map fst rule_usage) [] of
               None \<Rightarrow> None
             | Some action_usage \<Rightarrow> Some (Inr ((new_actions, all_rules, action_usage), self'))))"

subsection \<open>Notions used to state the properties\<close>

text \<open>The name given to the rule minted when the counter stands at \<open>i\<close>.\<close>

definition rule_name :: "nat \<Rightarrow> symbol" where
  "rule_name i = PyStr (''R'' @ str_nat i)"

text \<open>
  How often a pair stands at adjacent positions \<open>j\<close>, \<open>j + 1\<close> of a sequence, for
  \<open>j\<close> below \<open>i\<close> and in the whole sequence: the plain count, with no adjustment.
\<close>

definition occurrences_upto :: "symbol list \<Rightarrow> nat \<Rightarrow> pair \<Rightarrow> nat" where
  "occurrences_upto string i p = length (filter (\<lambda>j. (string ! j, string ! (j + 1)) = p) [0..<i])"

definition pair_occurrences :: "symbol list \<Rightarrow> pair \<Rightarrow> nat" where
  "pair_occurrences string p = occurrences_upto string (length string - 1) p"

text \<open>
  The raw sequence a symbol stands for under a rule table: a symbol with no rule stands for
  itself, a rule name for what its two right-hand symbols stand for.
\<close>

inductive den :: "(symbol \<rightharpoonup> pair) \<Rightarrow> symbol \<Rightarrow> symbol list \<Rightarrow> bool" for m where
  leaf: "m s = None \<Longrightarrow> den m s [s]"
| node: "m s = Some (a, b) \<Longrightarrow> den m a xs \<Longrightarrow> den m b ys \<Longrightarrow> den m s (xs @ ys)"



text \<open>What one pass of the expander puts in the place of one symbol.\<close>

definition expand_symbol :: "rules \<Rightarrow> symbol \<Rightarrow> symbol list" where
  "expand_symbol rls s = (case map_of rls s of Some rhs \<Rightarrow> [fst rhs, snd rhs] | None \<Rightarrow> [s])"

text \<open>
  What a run on \<open>actions\<close> keeps true of the driver's state: the current sequence stands
  for \<open>actions\<close> under the rule table, the names in the table were minted before the
  counter's current value, and every rule counted so far stands for raw symbols of
  \<open>actions\<close>.
\<close>

definition run_inv :: "symbol list \<Rightarrow> k_Sequitur \<Rightarrow> rules \<Rightarrow> usage \<Rightarrow> symbol list \<Rightarrow> bool" where
  "run_inv actions s a u x \<longleftrightarrow>
     (\<exists>parts. list_all2 (den (map_of a)) x parts \<and> concat parts = actions) \<and>
     (\<forall>nm\<in>fst ` set a. \<exists>j<next_rule_name_ix s. nm = rule_name j) \<and>
     (\<forall>key\<in>fst ` set u. \<exists>xs. den (map_of a) key xs \<and> set xs \<subseteq> set actions)"

text \<open>
  Expanding every symbol of a sequence with \<^const>\<open>convert_symbol_to_raw_actions\<close> and
  concatenating the tuples in order.
\<close>

fun reconstruct :: "rules \<Rightarrow> symbol list \<Rightarrow> symbol list option" where
  "reconstruct rls [] = Some []"
| "reconstruct rls (s # ss) =
     (case convert_symbol_to_raw_actions s rls of
        None \<Rightarrow> None
      | Some xs \<Rightarrow> (case reconstruct rls ss of None \<Rightarrow> None | Some ys \<Rightarrow> Some (xs @ ys)))"

section \<open>Auxiliary facts\<close>

subsection \<open>Loops over an index range, rule names, dictionaries\<close>

lemma fold_upt_invariant:
  assumes "P 0 s0" and "\<And>i s. i < n \<Longrightarrow> P i s \<Longrightarrow> P (Suc i) (f i s)"
  shows "P n (fold f [0..<n] s0)"
  using assms(2)
proof (induction n)
  case 0
  show ?case using assms(1) by simp
next
  case (Suc n)
  have "P n (fold f [0..<n] s0)" using Suc by simp
  then show ?case using Suc.prems[of n] by simp
qed

lemma digit_char_inj: "d < 10 \<Longrightarrow> e < 10 \<Longrightarrow> digit_char d = digit_char e \<Longrightarrow> d = e"
proof -
  assume a: "d < 10" "e < 10" "digit_char d = digit_char e"
  then have "(of_char (char_of (48 + d)) :: nat) = of_char (char_of (48 + e))"
    by (simp add: digit_char_def)
  then show ?thesis using a by simp
qed

lemma str_nat_nonempty: "str_nat n \<noteq> []"
  by (subst str_nat.simps) simp

lemma str_nat_inj: "str_nat m = str_nat n \<Longrightarrow> m = n"
proof (induction m arbitrary: n rule: str_nat.induct)
  case (1 m)
  show ?case
  proof (cases "m < 10")
    case True
    then have m: "str_nat m = [digit_char m]" by (subst str_nat.simps) simp
    show ?thesis
    proof (cases "n < 10")
      case True
      then have "str_nat n = [digit_char n]" by (subst str_nat.simps) simp
      with m 1 have "digit_char m = digit_char n" by simp
      then show ?thesis using \<open>m < 10\<close> True digit_char_inj by blast
    next
      case False
      then have "str_nat n = str_nat (n div 10) @ [digit_char (n mod 10)]" by (subst str_nat.simps) simp
      with m 1(2) have "str_nat (n div 10) = []" by simp
      then show ?thesis using str_nat_nonempty by blast
    qed
  next
    case False
    then have m: "str_nat m = str_nat (m div 10) @ [digit_char (m mod 10)]" by (subst str_nat.simps) simp
    show ?thesis
    proof (cases "n < 10")
      case True
      then have "str_nat n = [digit_char n]" by (subst str_nat.simps) simp
      with m 1(2) have "str_nat (m div 10) = []" by simp
      then show ?thesis using str_nat_nonempty by blast
    next
      case nb: False
      then have "str_nat n = str_nat (n div 10) @ [digit_char (n mod 10)]" by (subst str_nat.simps) simp
      with m 1(2) have e: "str_nat (m div 10) = str_nat (n div 10)" "digit_char (m mod 10) = digit_char (n mod 10)"
        by simp_all
      have "m div 10 = n div 10" using 1(1)[OF False e(1)] .
      moreover have "m mod 10 = n mod 10" using digit_char_inj[OF _ _ e(2)] by simp
      ultimately show ?thesis by (metis div_mult_mod_eq)
    qed
  qed
qed

lemma rule_name_inj: "rule_name i = rule_name j \<Longrightarrow> i = j"
  by (simp add: rule_name_def str_nat_inj)

lemma rule_name_not_Int: "\<not> is_Int (rule_name i)"
  by (simp add: rule_name_def)

lemma get_next_rule_name_fst: "fst (get_next_rule_name self) = rule_name (next_rule_name_ix self)"
  by (simp add: get_next_rule_name_def rule_name_def)

lemma get_next_rule_name_snd:
  "snd (get_next_rule_name self) = self\<lparr>next_rule_name_ix := Suc (next_rule_name_ix self)\<rparr>"
  by (simp add: get_next_rule_name_def)

lemma set_update_subset: "set (AList.update a v al) \<subseteq> insert (a, v) (set al)"
  by (induction al) auto

lemma set_update_mem: "(a, v) \<in> set (AList.update a v al)"
  by (induction al) auto

subsection \<open>The layer builder: engine fields, names and pairs\<close>

lemma layer_step_engine:
  "k (engine (layer_step string ix st)) = k (engine st) \<and>
   end_of_episode_symbol (engine (layer_step string ix st)) = end_of_episode_symbol (engine st) \<and>
   next_rule_name_ix (engine st) \<le> next_rule_name_ix (engine (layer_step string ix st))"
  by (simp add: layer_step_def Let_def get_next_rule_name_snd)

lemma layer_scan_engine:
  "k (engine (layer_scan self string)) = k self \<and>
   end_of_episode_symbol (engine (layer_scan self string)) = end_of_episode_symbol self"
  unfolding layer_scan_def
proof (rule fold_upt_invariant
    [where P = "\<lambda>i st. k (engine st) = k self \<and> end_of_episode_symbol (engine st) = end_of_episode_symbol self"])
  show "k (engine (layer_init self)) = k self \<and>
        end_of_episode_symbol (engine (layer_init self)) = end_of_episode_symbol self"
    by (simp add: layer_init_def)
next
  fix i and st :: layer_state
  assume "k (engine st) = k self \<and> end_of_episode_symbol (engine st) = end_of_episode_symbol self"
  then show "k (engine (layer_step string i st)) = k self \<and>
             end_of_episode_symbol (engine (layer_step string i st)) = end_of_episode_symbol self"
    using layer_step_engine[of string i st] by simp
qed

text \<open>The names minted in one scan are distinct and come from the counter values the scan used.\<close>

lemma layer_step_names:
  assumes "distinct (map fst (layer_rules st))"
    and "\<forall>nm\<in>fst ` set (layer_rules st). \<exists>j. lo \<le> j \<and> j < next_rule_name_ix (engine st) \<and> nm = rule_name j"
    and "lo \<le> next_rule_name_ix (engine st)"
  shows "distinct (map fst (layer_rules (layer_step string ix st))) \<and>
    (\<forall>nm\<in>fst ` set (layer_rules (layer_step string ix st)).
        \<exists>j. lo \<le> j \<and> j < next_rule_name_ix (engine (layer_step string ix st)) \<and> nm = rule_name j) \<and>
    lo \<le> next_rule_name_ix (engine (layer_step string ix st))"
proof -
  have mint: "distinct (map fst (AList.update (rule_name (next_rule_name_ix (engine st))) p (layer_rules st))) \<and>
    (\<forall>nm\<in>fst ` set (AList.update (rule_name (next_rule_name_ix (engine st))) p (layer_rules st)).
        \<exists>j. lo \<le> j \<and> j < Suc (next_rule_name_ix (engine st)) \<and> nm = rule_name j)" for p
    using assms by (auto simp: distinct_update dom_update intro: less_SucI)
  show ?thesis
    using assms mint
    by (simp add: layer_step_def Let_def get_next_rule_name_snd get_next_rule_name_fst)
qed

lemma layer_scan_names:
  "distinct (map fst (layer_rules (layer_scan self string))) \<and>
   (\<forall>nm\<in>fst ` set (layer_rules (layer_scan self string)).
      \<exists>j. next_rule_name_ix self \<le> j \<and> j < next_rule_name_ix (engine (layer_scan self string)) \<and> nm = rule_name j) \<and>
   next_rule_name_ix self \<le> next_rule_name_ix (engine (layer_scan self string))"
  unfolding layer_scan_def
proof (rule fold_upt_invariant
    [where P = "\<lambda>i st. distinct (map fst (layer_rules st)) \<and>
      (\<forall>nm\<in>fst ` set (layer_rules st).
         \<exists>j. next_rule_name_ix self \<le> j \<and> j < next_rule_name_ix (engine st) \<and> nm = rule_name j) \<and>
      next_rule_name_ix self \<le> next_rule_name_ix (engine st)"])
  show "distinct (map fst (layer_rules (layer_init self))) \<and>
      (\<forall>nm\<in>fst ` set (layer_rules (layer_init self)).
         \<exists>j. next_rule_name_ix self \<le> j \<and> j < next_rule_name_ix (engine (layer_init self)) \<and> nm = rule_name j) \<and>
      next_rule_name_ix self \<le> next_rule_name_ix (engine (layer_init self))"
    by (simp add: layer_init_def)
next
  fix i and st :: layer_state
  assume "distinct (map fst (layer_rules st)) \<and>
      (\<forall>nm\<in>fst ` set (layer_rules st).
         \<exists>j. next_rule_name_ix self \<le> j \<and> j < next_rule_name_ix (engine st) \<and> nm = rule_name j) \<and>
      next_rule_name_ix self \<le> next_rule_name_ix (engine st)"
  then show "distinct (map fst (layer_rules (layer_step string i st))) \<and>
      (\<forall>nm\<in>fst ` set (layer_rules (layer_step string i st)).
         \<exists>j. next_rule_name_ix self \<le> j \<and> j < next_rule_name_ix (engine (layer_step string i st)) \<and> nm = rule_name j) \<and>
      next_rule_name_ix self \<le> next_rule_name_ix (engine (layer_step string i st))"
    using layer_step_names[of st "next_rule_name_ix self" string i] by blast
qed

text \<open>Every pair that gets a rule stands at adjacent positions of the scanned sequence.\<close>

lemma layer_step_pairs:
  assumes "\<forall>p\<in>snd ` set (layer_rules st). \<exists>j<i. p = (string ! j, string ! (j + 1))"
  shows "\<forall>p\<in>snd ` set (layer_rules (layer_step string i st)). \<exists>j<Suc i. p = (string ! j, string ! (j + 1))"
proof -
  have old: "\<forall>p\<in>snd ` set (layer_rules st). \<exists>j<Suc i. p = (string ! j, string ! (j + 1))"
    using assms less_SucI by blast
  have mint: "\<forall>p\<in>snd ` set (AList.update nm (string ! i, string ! (i + 1)) (layer_rules st)).
      \<exists>j<Suc i. p = (string ! j, string ! (j + 1))" for nm
  proof
    fix p assume "p \<in> snd ` set (AList.update nm (string ! i, string ! (i + 1)) (layer_rules st))"
    then have "p = (string ! i, string ! (i + 1)) \<or> p \<in> snd ` set (layer_rules st)"
      using set_update_subset[of nm "(string ! i, string ! (i + 1))" "layer_rules st"] by auto
    then show "\<exists>j<Suc i. p = (string ! j, string ! (j + 1))" using old by auto
  qed
  show ?thesis using old mint by (simp add: layer_step_def Let_def)
qed

lemma layer_scan_pairs:
  "\<forall>p\<in>snd ` set (layer_rules (layer_scan self string)).
     \<exists>j<length string - 1. p = (string ! j, string ! (j + 1))"
  unfolding layer_scan_def
proof (rule fold_upt_invariant
    [where P = "\<lambda>i st. \<forall>p\<in>snd ` set (layer_rules st). \<exists>j<i. p = (string ! j, string ! (j + 1))"])
  show "\<forall>p\<in>snd ` set (layer_rules (layer_init self)). \<exists>j<0. p = (string ! j, string ! (j + 1))"
    by (simp add: layer_init_def)
next
  fix i and st :: layer_state
  assume "\<forall>p\<in>snd ` set (layer_rules st). \<exists>j<i. p = (string ! j, string ! (j + 1))"
  then show "\<forall>p\<in>snd ` set (layer_rules (layer_step string i st)). \<exists>j<Suc i. p = (string ! j, string ! (j + 1))"
    by (rule layer_step_pairs)
qed

subsection \<open>The layer builder: counts; the reverse lookup\<close>

lemma occurrences_upto_Suc:
  "occurrences_upto string (Suc i) p =
     occurrences_upto string i p + (if (string ! i, string ! (i + 1)) = p then 1 else 0)"
  by (simp add: occurrences_upto_def)

text \<open>
  The running count of a pair never exceeds the number of its occurrences scanned so far,
  and a pair with a rule has occurred at least \<open>k\<close> times.
\<close>

lemma layer_step_counts:
  assumes c: "\<forall>p. pairs_of_symbols st p \<le> int (occurrences_upto string i p)"
    and r: "\<forall>p\<in>snd ` set (layer_rules st). k (engine st) \<le> int (occurrences_upto string i p)"
  shows "(\<forall>p. pairs_of_symbols (layer_step string i st) p \<le> int (occurrences_upto string (Suc i) p)) \<and>
    (\<forall>p\<in>snd ` set (layer_rules (layer_step string i st)).
        k (engine (layer_step string i st)) \<le> int (occurrences_upto string (Suc i) p))"
proof -
  let ?pair = "(string ! i, string ! (i + 1))"
  have c': "pairs_of_symbols st p \<le> int (occurrences_upto string (Suc i) p)" for p
    using c[rule_format, of p] by (simp add: occurrences_upto_Suc)
  have cp: "pairs_of_symbols st ?pair + 1 \<le> int (occurrences_upto string (Suc i) ?pair)"
    using c[rule_format, of ?pair] by (simp add: occurrences_upto_Suc)
  have r': "\<forall>p\<in>snd ` set (layer_rules st). k (engine st) \<le> int (occurrences_upto string (Suc i) p)"
    using r by (auto simp: occurrences_upto_Suc)
  have mint: "k (engine st) \<le> int (occurrences_upto string (Suc i) ?pair) \<Longrightarrow>
      \<forall>p\<in>snd ` set (AList.update nm ?pair (layer_rules st)).
         k (engine st) \<le> int (occurrences_upto string (Suc i) p)" for nm
    using r' set_update_subset[of nm ?pair "layer_rules st"] by auto
  have le1: "pairs_of_symbols st p - 1 \<le> int (occurrences_upto string (Suc i) p)" for p
    using c'[of p] by simp
  show ?thesis
  proof (cases "skip_next_symbol st \<or> string ! (i + 1) = end_of_episode_symbol (engine st)")
    case True
    then show ?thesis using c' r' by (auto simp: layer_step_def)
  next
    case False
    show ?thesis
    proof (cases "Some ?pair \<noteq> last_pair st")
      case True
      have thr: "k (engine st) \<le> pairs_of_symbols st ?pair + 1 \<Longrightarrow>
          k (engine st) \<le> int (occurrences_upto string (Suc i) ?pair)"
        using cp by simp
      show ?thesis
        using False True c' cp r' mint thr le1
        by (auto simp: layer_step_def Let_def get_next_rule_name_snd)
    next
      case same: False
      have thr: "k (engine st) \<le> pairs_of_symbols st ?pair \<Longrightarrow>
          k (engine st) \<le> int (occurrences_upto string (Suc i) ?pair)"
        using c'[of ?pair] by simp
      show ?thesis
        using False same c' r' mint thr le1
        by (auto simp: layer_step_def Let_def get_next_rule_name_snd)
    qed
  qed
qed

lemma layer_scan_counts:
  "\<forall>p\<in>snd ` set (layer_rules (layer_scan self string)). k self \<le> int (pair_occurrences string p)"
proof -
  have "(\<forall>p. pairs_of_symbols (layer_scan self string) p \<le> int (occurrences_upto string (length string - 1) p)) \<and>
    (\<forall>p\<in>snd ` set (layer_rules (layer_scan self string)).
       k (engine (layer_scan self string)) \<le> int (occurrences_upto string (length string - 1) p))"
    unfolding layer_scan_def
  proof (rule fold_upt_invariant
      [where P = "\<lambda>i st. (\<forall>p. pairs_of_symbols st p \<le> int (occurrences_upto string i p)) \<and>
         (\<forall>p\<in>snd ` set (layer_rules st). k (engine st) \<le> int (occurrences_upto string i p))"])
    show "(\<forall>p. pairs_of_symbols (layer_init self) p \<le> int (occurrences_upto string 0 p)) \<and>
         (\<forall>p\<in>snd ` set (layer_rules (layer_init self)).
            k (engine (layer_init self)) \<le> int (occurrences_upto string 0 p))"
      by (simp add: layer_init_def)
  next
    fix i and st :: layer_state
    assume "(\<forall>p. pairs_of_symbols st p \<le> int (occurrences_upto string i p)) \<and>
         (\<forall>p\<in>snd ` set (layer_rules st). k (engine st) \<le> int (occurrences_upto string i p))"
    then show "(\<forall>p. pairs_of_symbols (layer_step string i st) p \<le> int (occurrences_upto string (Suc i) p)) \<and>
         (\<forall>p\<in>snd ` set (layer_rules (layer_step string i st)).
            k (engine (layer_step string i st)) \<le> int (occurrences_upto string (Suc i) p))"
      using layer_step_counts[of st string i] by blast
  qed
  then show ?thesis
    using layer_scan_engine[of self string] by (simp add: pair_occurrences_def)
qed

text \<open>The reverse lookup holds exactly the pairs of the layer's rules.\<close>

lemma invert_fold_lookup:
  "map_of (fold (\<lambda>kv acc. AList.update (snd kv) (fst kv) acc) rls acc) p = Some nm
     \<Longrightarrow> (nm, p) \<in> set rls \<or> map_of acc p = Some nm"
proof (induction rls arbitrary: acc)
  case Nil
  then show ?case by simp
next
  case (Cons kv rls)
  from Cons.IH[of "AList.update (snd kv) (fst kv) acc"] Cons.prems
  have "(nm, p) \<in> set rls \<or> map_of (AList.update (snd kv) (fst kv) acc) p = Some nm" by simp
  then show ?case
    by (cases kv) (auto simp: update_conv' split: if_splits)
qed

lemma invert_rules_lookup: "map_of (invert_rules rls) p = Some nm \<Longrightarrow> (nm, p) \<in> set rls"
  using invert_fold_lookup[of rls "[]" p nm] by (simp add: invert_rules_def)

lemma invert_fold_keys:
  "fst ` set (fold (\<lambda>kv acc. AList.update (snd kv) (fst kv) acc) rls acc) = snd ` set rls \<union> fst ` set acc"
  by (induction rls arbitrary: acc) (auto simp: dom_update)

lemma invert_rules_keys: "fst ` set (invert_rules rls) = snd ` set rls"
  by (simp add: invert_rules_def invert_fold_keys)


subsection \<open>The rewriter: lengths and usage counts\<close>

lemma dict_add_nonempty: "dict_add d key n \<noteq> []"
  by (simp add: dict_add_def)

lemma dict_add_keys: "fst ` set (dict_add d key n) = insert key (fst ` set d)"
  by (simp add: dict_add_def dom_update)

text \<open>
  After \<open>i\<close> iterations the rewriter has consumed \<open>i\<close> symbols, or \<open>i + 1\<close> when the next
  one is to be skipped; its output is the consumed prefix as long as no rule has fired, and
  shorter than the consumed prefix afterwards.
\<close>

lemma rewrite_step_length:
  assumes i: "i < length string"
    and a: "i + (if skip_next_element st then 1 else 0) \<le> length string"
    and b: "rules_usage_count st = [] \<longrightarrow>
              new_string st = take i string \<and> \<not> skip_next_element st \<and>
              (\<forall>j<i. j + 1 < length string \<longrightarrow> map_of rev_rules (string ! j, string ! (j + 1)) = None)"
    and c: "rules_usage_count st \<noteq> [] \<longrightarrow>
              length (new_string st) < i + (if skip_next_element st then 1 else 0)"
    and d: "length (new_string st) \<le> i + (if skip_next_element st then 1 else 0)"
  shows "Suc i + (if skip_next_element (rewrite_step string rev_rules i st) then 1 else 0) \<le> length string \<and>
    (rules_usage_count (rewrite_step string rev_rules i st) = [] \<longrightarrow>
       new_string (rewrite_step string rev_rules i st) = take (Suc i) string \<and>
       \<not> skip_next_element (rewrite_step string rev_rules i st) \<and>
       (\<forall>j<Suc i. j + 1 < length string \<longrightarrow> map_of rev_rules (string ! j, string ! (j + 1)) = None)) \<and>
    (rules_usage_count (rewrite_step string rev_rules i st) \<noteq> [] \<longrightarrow>
       length (new_string (rewrite_step string rev_rules i st))
         < Suc i + (if skip_next_element (rewrite_step string rev_rules i st) then 1 else 0)) \<and>
    length (new_string (rewrite_step string rev_rules i st))
       \<le> Suc i + (if skip_next_element (rewrite_step string rev_rules i st) then 1 else 0)"
proof (cases "skip_next_element st")
  case True
  then show ?thesis using a b c d by (auto simp: rewrite_step_def)
next
  case ns: False
  show ?thesis
  proof (cases "int i = int (length string) - 1")
    case True
    then have e: "Suc i = length string" by simp
    have t: "take i string @ [string ! i] = string"
      using take_Suc_conv_app_nth[OF i] e by simp
    show ?thesis
      using ns True e t b c d by (auto simp: rewrite_step_def less_Suc_eq)
  next
    case nl: False
    then have lt: "Suc i < length string" using i by auto
    show ?thesis
    proof (cases "map_of rev_rules (string ! i, string ! (i + 1))")
      case None
      then show ?thesis
        using ns nl i lt b c d by (auto simp: rewrite_step_def take_Suc_conv_app_nth less_Suc_eq)
    next
      case (Some result)
      then show ?thesis
        using ns nl i lt d by (auto simp: rewrite_step_def dict_add_nonempty)
    qed
  qed
qed

lemma rewrite_scan_length:
  "\<not> skip_next_element (rewrite_scan string rev_rules) \<and>
   (rules_usage_count (rewrite_scan string rev_rules) = [] \<longrightarrow>
      new_string (rewrite_scan string rev_rules) = string \<and>
      (\<forall>j. j + 1 < length string \<longrightarrow> map_of rev_rules (string ! j, string ! (j + 1)) = None)) \<and>
   (rules_usage_count (rewrite_scan string rev_rules) \<noteq> [] \<longrightarrow>
      length (new_string (rewrite_scan string rev_rules)) < length string) \<and>
   length (new_string (rewrite_scan string rev_rules)) \<le> length string"
proof -
  let ?P = "\<lambda>i st. i + (if skip_next_element st then 1 else 0) \<le> length string \<and>
     (rules_usage_count st = [] \<longrightarrow>
        new_string st = take i string \<and> \<not> skip_next_element st \<and>
        (\<forall>j<i. j + 1 < length string \<longrightarrow> map_of rev_rules (string ! j, string ! (j + 1)) = None)) \<and>
     (rules_usage_count st \<noteq> [] \<longrightarrow>
        length (new_string st) < i + (if skip_next_element st then 1 else 0)) \<and>
     length (new_string st) \<le> i + (if skip_next_element st then 1 else 0)"
  have "?P (length string) (fold (rewrite_step string rev_rules) [0..<length string] rewrite_init)"
  proof (rule fold_upt_invariant[where P = ?P])
    show "?P 0 rewrite_init" by (simp add: rewrite_init_def)
  next
    fix i and st :: rewrite_state
    assume "i < length string" and "?P i st"
    then show "?P (Suc i) (rewrite_step string rev_rules i st)"
      using rewrite_step_length[of i string st rev_rules] by blast
  qed
  then have p: "?P (length string) (rewrite_scan string rev_rules)"
    unfolding rewrite_scan_def .
  then have ns: "\<not> skip_next_element (rewrite_scan string rev_rules)"
    by (auto split: if_splits)
  show ?thesis using p ns by auto
qed

text \<open>Every rule counted by the rewriter is the one of an adjacent pair of the sequence.\<close>

lemma rewrite_step_usage:
  assumes "i < length string"
    and "\<forall>key\<in>fst ` set (rules_usage_count st).
           \<exists>j. j + 1 < length string \<and> map_of rev_rules (string ! j, string ! (j + 1)) = Some key"
  shows "\<forall>key\<in>fst ` set (rules_usage_count (rewrite_step string rev_rules i st)).
           \<exists>j. j + 1 < length string \<and> map_of rev_rules (string ! j, string ! (j + 1)) = Some key"
proof (cases "skip_next_element st \<or> int i = int (length string) - 1")
  case True
  then show ?thesis using assms(2) by (auto simp: rewrite_step_def)
next
  case False
  then have lt: "i + 1 < length string" using assms(1) by auto
  show ?thesis
  proof (cases "map_of rev_rules (string ! i, string ! (i + 1))")
    case None
    then show ?thesis using False assms(2) by (auto simp: rewrite_step_def)
  next
    case (Some result)
    then have "rules_usage_count (rewrite_step string rev_rules i st) = dict_add (rules_usage_count st) result 1"
      using False by (auto simp: rewrite_step_def)
    then show ?thesis using assms(2) Some lt by (auto simp: dict_add_keys)
  qed
qed

lemma rewrite_scan_usage:
  "\<forall>key\<in>fst ` set (rules_usage_count (rewrite_scan string rev_rules)).
      \<exists>j. j + 1 < length string \<and> map_of rev_rules (string ! j, string ! (j + 1)) = Some key"
  unfolding rewrite_scan_def
proof (rule fold_upt_invariant
    [where P = "\<lambda>i st. \<forall>key\<in>fst ` set (rules_usage_count st).
        \<exists>j. j + 1 < length string \<and> map_of rev_rules (string ! j, string ! (j + 1)) = Some key"])
  show "\<forall>key\<in>fst ` set (rules_usage_count rewrite_init).
        \<exists>j. j + 1 < length string \<and> map_of rev_rules (string ! j, string ! (j + 1)) = Some key"
    by (simp add: rewrite_init_def)
next
  fix i and st :: rewrite_state
  assume "i < length string"
    and "\<forall>key\<in>fst ` set (rules_usage_count st).
        \<exists>j. j + 1 < length string \<and> map_of rev_rules (string ! j, string ! (j + 1)) = Some key"
  then show "\<forall>key\<in>fst ` set (rules_usage_count (rewrite_step string rev_rules i st)).
        \<exists>j. j + 1 < length string \<and> map_of rev_rules (string ! j, string ! (j + 1)) = Some key"
    by (rule rewrite_step_usage)
qed

lemma convert_length: "length (fst (convert_a_string_using_reverse_rules string rev_rules)) \<le> length string"
  using rewrite_scan_length[of string rev_rules]
  by (simp add: convert_a_string_using_reverse_rules_def Let_def)

lemma convert_same_or_shorter:
  "fst (convert_a_string_using_reverse_rules string rev_rules) = string \<or>
   length (fst (convert_a_string_using_reverse_rules string rev_rules)) < length string"
  using rewrite_scan_length[of string rev_rules]
  by (auto simp: convert_a_string_using_reverse_rules_def Let_def)

lemma convert_applied:
  assumes "j + 1 < length string" and "map_of rev_rules (string ! j, string ! (j + 1)) = Some nm"
  shows "length (fst (convert_a_string_using_reverse_rules string rev_rules)) < length string"
proof -
  have "rules_usage_count (rewrite_scan string rev_rules) \<noteq> []"
    using rewrite_scan_length[of string rev_rules] assms by auto
  then show ?thesis
    using rewrite_scan_length[of string rev_rules]
    by (simp add: convert_a_string_using_reverse_rules_def Let_def)
qed


subsection \<open>The expander\<close>

lemma expand_pass_fold:
  "fold (\<lambda>symbol_val new_symbol.
           case map_of rls symbol_val of
             Some rhs \<Rightarrow> new_symbol @ [fst rhs] @ [snd rhs]
           | None \<Rightarrow> new_symbol @ [symbol_val]) syms acc
   = acc @ concat (map (expand_symbol rls) syms)"
  by (induction syms arbitrary: acc) (auto simp: expand_symbol_def split: option.splits)

lemma expand_pass_concat: "expand_pass rls syms = concat (map (expand_symbol rls) syms)"
  by (simp add: expand_pass_def expand_pass_fold)

lemma expand_pass_Cons: "expand_pass rls (s # ss) = expand_symbol rls s @ expand_pass rls ss"
  by (simp add: expand_pass_concat)

lemma expand_pass_Nil: "expand_pass rls [] = []"
  by (simp add: expand_pass_concat)

lemma length_expand_pass: "length syms \<le> length (expand_pass rls syms)"
  by (induction syms) (auto simp: expand_pass_Cons expand_pass_Nil expand_symbol_def split: option.splits)

lemma expand_pass_grows:
  "expand_pass rls syms \<noteq> syms \<Longrightarrow> length syms < length (expand_pass rls syms)"
proof (induction syms)
  case Nil
  then show ?case by (simp add: expand_pass_Nil)
next
  case (Cons s ss)
  show ?case
  proof (cases "map_of rls s")
    case None
    then have "expand_pass rls (s # ss) = s # expand_pass rls ss"
      by (simp add: expand_pass_Cons expand_symbol_def)
    then show ?thesis using Cons by simp
  next
    case (Some rhs)
    then have "length (expand_pass rls (s # ss)) = 2 + length (expand_pass rls ss)"
      by (simp add: expand_pass_Cons expand_symbol_def)
    then show ?thesis using length_expand_pass[of ss rls] by simp
  qed
qed

lemma expand_pass_fixed: "expand_pass rls syms = syms \<Longrightarrow> \<forall>s\<in>set syms. map_of rls s = None"
proof (induction syms)
  case Nil
  then show ?case by simp
next
  case (Cons s ss)
  show ?case
  proof (cases "map_of rls s")
    case None
    then have "expand_pass rls (s # ss) = s # expand_pass rls ss"
      by (simp add: expand_pass_Cons expand_symbol_def)
    then show ?thesis using Cons None by simp
  next
    case (Some rhs)
    then have "length (expand_pass rls (s # ss)) = 2 + length (expand_pass rls ss)"
      by (simp add: expand_pass_Cons expand_symbol_def)
    then have "length (s # ss) < length (expand_pass rls (s # ss))"
      using length_expand_pass[of ss rls] by simp
    then show ?thesis using Cons.prems by simp
  qed
qed

lemma den_nonempty: "den m s xs \<Longrightarrow> xs \<noteq> []"
  by (induction rule: den.induct) auto

lemma dens_length: "list_all2 (den m) syms parts \<Longrightarrow> length syms \<le> length (concat parts)"
proof (induction rule: list_all2_induct)
  case Nil
  then show ?case by simp
next
  case (Cons s syms xs parts)
  then have "length xs \<ge> 1" using den_nonempty[of m s xs] by (cases xs) auto
  then show ?case using Cons by simp
qed

lemma dens_leaves:
  "list_all2 (den m) syms parts \<Longrightarrow> \<forall>s\<in>set syms. m s = None \<Longrightarrow> concat parts = syms"
proof (induction rule: list_all2_induct)
  case Nil
  then show ?case by simp
next
  case (Cons s syms xs parts)
  from Cons.hyps(1) Cons.prems have "xs = [s]" by (auto elim: den.cases)
  then show ?case using Cons by simp
qed

lemma dens_pass:
  "list_all2 (den (map_of rls)) syms parts \<Longrightarrow>
     \<exists>parts'. list_all2 (den (map_of rls)) (expand_pass rls syms) parts' \<and> concat parts' = concat parts"
proof (induction rule: list_all2_induct)
  case Nil
  then show ?case by (simp add: expand_pass_Nil)
next
  case (Cons s syms xs parts)
  then obtain parts' where p: "list_all2 (den (map_of rls)) (expand_pass rls syms) parts'"
    "concat parts' = concat parts" by blast
  from Cons.hyps(1) show ?case
  proof (cases rule: den.cases)
    case leaf
    then have "expand_pass rls (s # syms) = s # expand_pass rls syms"
      by (simp add: expand_pass_Cons expand_symbol_def)
    moreover have "list_all2 (den (map_of rls)) (s # expand_pass rls syms) (xs # parts')"
      using p(1) Cons.hyps(1) by simp
    ultimately show ?thesis using p(2) by (metis concat.simps(2))
  next
    case (node a b ys zs)
    then have "expand_pass rls (s # syms) = a # b # expand_pass rls syms"
      by (simp add: expand_pass_Cons expand_symbol_def)
    moreover have "list_all2 (den (map_of rls)) (a # b # expand_pass rls syms) (ys # zs # parts')"
      using p(1) node by simp
    moreover have "concat (ys # zs # parts') = concat (xs # parts)"
      using p(2) node by simp
    ultimately show ?thesis by metis
  qed
qed

text \<open>
  The expander returns: when every symbol of the working sequence stands for a raw sequence
  under the table, the loop ends with the concatenation of these raw sequences.
\<close>

lemma expand_loop_dens:
  "list_all2 (den (map_of rls)) syms parts \<Longrightarrow> expand_loop rls syms = Some (concat parts)"
proof (induction "length (concat parts) - length syms" arbitrary: syms parts rule: less_induct)
  case less
  show ?case
  proof (cases "expand_pass rls syms = syms")
    case True
    then have "concat parts = syms"
      using dens_leaves[OF less.prems] expand_pass_fixed by blast
    then show ?thesis using True by (subst expand_loop.simps) simp
  next
    case False
    obtain parts' where p: "list_all2 (den (map_of rls)) (expand_pass rls syms) parts'"
      "concat parts' = concat parts"
      using dens_pass[OF less.prems] by blast
    have "length syms < length (expand_pass rls syms)" using expand_pass_grows[OF False] .
    moreover have "length (expand_pass rls syms) \<le> length (concat parts')" using dens_length[OF p(1)] .
    ultimately have "length (concat parts') - length (expand_pass rls syms)
        < length (concat parts) - length syms"
      using p(2) by simp
    then have "expand_loop rls (expand_pass rls syms) = Some (concat parts')"
      using less.hyps[OF _ p(1)] by simp
    then show ?thesis using False p(2) by (subst expand_loop.simps) (simp add: Let_def)
  qed
qed

lemma convert_symbol_den:
  "den (map_of rls) s xs \<Longrightarrow> convert_symbol_to_raw_actions s rls = Some xs"
  using expand_loop_dens[of rls "[s]" "[xs]"] by (simp add: convert_symbol_to_raw_actions_def)

lemma reconstruct_dens:
  "list_all2 (den (map_of rls)) syms parts \<Longrightarrow> reconstruct rls syms = Some (concat parts)"
  by (induction rule: list_all2_induct) (auto simp: convert_symbol_den)

text \<open>
  Adding rules under fresh names does not change what a symbol stands for, as long as no
  new name is among the raw symbols.
\<close>

lemma den_mono:
  "den m s xs \<Longrightarrow> m \<subseteq>\<^sub>m m' \<Longrightarrow> \<forall>y\<in>set xs. m' y = None \<Longrightarrow> den m' s xs"
proof (induction rule: den.induct)
  case (leaf s)
  then show ?case by (simp add: den.leaf)
next
  case (node s a b xs ys)
  have "m' s = Some (a, b)" using node.hyps(1) node.prems(1) by (auto simp: map_le_def dom_def)
  moreover have "den m' a xs" using node by simp
  moreover have "den m' b ys" using node by simp
  ultimately show ?case by (rule den.node)
qed

subsection \<open>The fixpoint driver\<close>

lemma loop_body_engine: "fst (loop_body s a u x) = engine (layer_scan s x)"
  by (simp add: loop_body_def Let_def generate_1_layer_of_rules_def)

lemma loop_body_rules: "fst (snd (loop_body s a u x)) = dict_update a (layer_rules (layer_scan s x))"
  by (simp add: loop_body_def Let_def generate_1_layer_of_rules_def)

lemma loop_body_usage:
  "fst (snd (snd (loop_body s a u x))) =
     fold (\<lambda>key acc. dict_add acc key
              (dict_get0 (snd (convert_a_string_using_reverse_rules x
                                 (invert_rules (layer_rules (layer_scan s x))))) key))
          (map fst (snd (convert_a_string_using_reverse_rules x
                           (invert_rules (layer_rules (layer_scan s x)))))) u"
  by (simp add: loop_body_def Let_def generate_1_layer_of_rules_def)

lemma loop_body_new:
  "snd (snd (snd (loop_body s a u x))) =
     fst (convert_a_string_using_reverse_rules x (invert_rules (layer_rules (layer_scan s x))))"
  by (simp add: loop_body_def Let_def generate_1_layer_of_rules_def)

lemma pass_length: "length (snd (snd (snd (loop_body s a u x)))) \<le> length x"
  by (simp add: loop_body_new convert_length)

lemma pass_same_or_shorter:
  "snd (snd (snd (loop_body s a u x))) = x \<or> length (snd (snd (snd (loop_body s a u x)))) < length x"
  by (simp add: loop_body_new convert_same_or_shorter)

text \<open>A layer that mints a rule applies some rule, so its output is shorter than its input.\<close>

lemma pass_minted_shorter:
  assumes "layer_rules (layer_scan s x) \<noteq> []"
  shows "length (snd (snd (snd (loop_body s a u x)))) < length x"
proof -
  obtain nm p where "(nm, p) \<in> set (layer_rules (layer_scan s x))"
    using assms by (cases "layer_rules (layer_scan s x)") auto
  then have p: "p \<in> snd ` set (layer_rules (layer_scan s x))" by force
  then obtain j where j: "j < length x - 1" "p = (x ! j, x ! (j + 1))"
    using layer_scan_pairs[of s x] by blast
  have "p \<in> fst ` set (invert_rules (layer_rules (layer_scan s x)))"
    using p by (simp add: invert_rules_keys)
  then obtain r where "map_of (invert_rules (layer_rules (layer_scan s x))) p = Some r"
    using map_of_eq_None_iff[of "invert_rules (layer_rules (layer_scan s x))" p] by auto
  then show ?thesis
    using convert_applied[of j x "invert_rules (layer_rules (layer_scan s x))" r] j
    by (simp add: loop_body_new)
qed



text \<open>
  The driver's loop returns, and what holds of its state before the first pass and is kept
  by every pass holds of the state it returns.
\<close>

lemma grammar_loop_rule:
  assumes inv: "I self all_rules rule_usage new_actions"
    and step: "\<And>s a u x. I s a u x \<Longrightarrow>
      I (fst (loop_body s a u x)) (fst (snd (loop_body s a u x)))
        (fst (snd (snd (loop_body s a u x)))) (snd (snd (snd (loop_body s a u x))))"
  shows "\<exists>x' a' u' s'. grammar_loop self all_rules rule_usage current_actions new_actions
            = Some (x', a', u', s') \<and> I s' a' u' x'"
  using inv
proof (induction "length new_actions" arbitrary: self all_rules rule_usage current_actions new_actions
    rule: less_induct)
  case less
  show ?case
  proof (cases "Some new_actions = current_actions")
    case True
    then show ?thesis using less.prems by (subst grammar_loop.simps) simp
  next
    case False
    let ?b = "loop_body self all_rules rule_usage new_actions"
    let ?s = "fst ?b" and ?a = "fst (snd ?b)" and ?u = "fst (snd (snd ?b))" and ?x = "snd (snd (snd ?b))"
    have unf: "grammar_loop self all_rules rule_usage current_actions new_actions
        = grammar_loop ?s ?a ?u (Some new_actions) ?x"
      using False by (subst grammar_loop.simps) simp
    have I': "I ?s ?a ?u ?x" using step[OF less.prems] .
    show ?thesis
    proof (cases "?x = new_actions")
      case True
      have "grammar_loop ?s ?a ?u (Some new_actions) ?x = Some (?x, ?a, ?u, ?s)"
        using True by (subst grammar_loop.simps) simp
      then show ?thesis using unf I' by simp
    next
      case False
      then have "length ?x < length new_actions"
        using pass_same_or_shorter[of self all_rules rule_usage new_actions] by simp
      from less.hyps[OF this I'] show ?thesis using unf by simp
    qed
  qed
qed


subsection \<open>Lengths along a run\<close>



lemma dict_update_Nil_iff: "dict_update d e = [] \<longleftrightarrow> d = [] \<and> e = []"
proof -
  have "fold (\<lambda>kv acc. AList.update (fst kv) (snd kv) acc) e d = [] \<longleftrightarrow> d = [] \<and> e = []"
  proof (induction e arbitrary: d)
    case Nil
    then show ?case by simp
  next
    case (Cons kv e)
    show ?case using Cons[of "AList.update (fst kv) (snd kv) d"] by simp
  qed
  then show ?thesis by (simp add: dict_update_def)
qed

lemma generate_action_grammar_loop:
  assumes "generate_action_grammar self actions = Some (Inr ((final, all_rules, au), self'))"
  shows "\<exists>ru. grammar_loop self [] [] None actions = Some (final, all_rules, ru, self') \<and>
           build_action_usage all_rules ru (map fst ru) [] = Some au"
  using assms
  by (auto simp: generate_action_grammar_def split: if_splits option.splits)

lemma grammar_loop_lengths:
  assumes "grammar_loop self [] [] None actions = Some (final, all_rules, ru, self')"
  shows "length final \<le> length actions \<and> (all_rules \<noteq> [] \<longrightarrow> length final < length actions)"
proof -
  let ?I = "\<lambda>(s::k_Sequitur) (a::rules) (u::usage) x.
     length x \<le> length actions \<and> (a \<noteq> [] \<longrightarrow> length x < length actions)"
  have step: "?I (fst (loop_body s a u x)) (fst (snd (loop_body s a u x)))
        (fst (snd (snd (loop_body s a u x)))) (snd (snd (snd (loop_body s a u x))))"
    if h: "?I s a u x" for s a u x
  proof -
    have le: "length (snd (snd (snd (loop_body s a u x)))) \<le> length x" by (rule pass_length)
    have "length (snd (snd (snd (loop_body s a u x)))) < length actions"
      if ne: "dict_update a (layer_rules (layer_scan s x)) \<noteq> []"
    proof (cases "a = []")
      case True
      then have "layer_rules (layer_scan s x) \<noteq> []" using ne by (simp add: dict_update_Nil_iff)
      then have "length (snd (snd (snd (loop_body s a u x)))) < length x"
        by (rule pass_minted_shorter)
      then show ?thesis using h by simp
    next
      case False
      then show ?thesis using h le by simp
    qed
    then show ?thesis using h le by (simp add: loop_body_rules)
  qed
  have "\<exists>x' a' u' s'. grammar_loop self [] [] None actions = Some (x', a', u', s') \<and> ?I s' a' u' x'"
    by (rule grammar_loop_rule[where I = ?I]) (simp, rule step)
  then show ?thesis using assms by simp
qed

subsection \<open>Dictionaries of rules; what the rewriter's output stands for\<close>

lemma dict_update_fold_map_of:
  "distinct (map fst e) \<Longrightarrow>
     map_of (fold (\<lambda>kv acc. AList.update (fst kv) (snd kv) acc) e d) = map_of d ++ map_of e"
proof (induction e arbitrary: d)
  case Nil
  then show ?case by simp
next
  case (Cons kv e)
  then have n: "map_of e (fst kv) = None" by (simp add: map_of_eq_None_iff)
  have "map_of (fold (\<lambda>kv acc. AList.update (fst kv) (snd kv) acc) (kv # e) d)
      = map_of (fold (\<lambda>kv acc. AList.update (fst kv) (snd kv) acc) e (AList.update (fst kv) (snd kv) d))"
    by simp
  also have "\<dots> = (map_of d)(fst kv \<mapsto> snd kv) ++ map_of e"
    using Cons by (simp add: update_conv')
  also have "\<dots> = map_of d ++ map_of (kv # e)"
    using n by (cases kv) (auto simp: map_add_def fun_eq_iff split: option.splits)
  finally show ?case .
qed

lemma dict_update_map_of:
  "distinct (map fst e) \<Longrightarrow> map_of (dict_update d e) = map_of d ++ map_of e"
  by (simp add: dict_update_def dict_update_fold_map_of)

lemma dict_update_keys: "fst ` set (dict_update d e) = fst ` set d \<union> fst ` set e"
proof -
  have "fst ` set (fold (\<lambda>kv acc. AList.update (fst kv) (snd kv) acc) e d) = fst ` set d \<union> fst ` set e"
    by (induction e arbitrary: d) (auto simp: dom_update)
  then show ?thesis by (simp add: dict_update_def)
qed

lemma dict_update_old:
  "distinct (map fst e) \<Longrightarrow> nm \<notin> fst ` set e \<Longrightarrow> map_of (dict_update d e) nm = map_of d nm"
  by (simp add: dict_update_map_of map_add_def map_of_eq_None_iff[THEN iffD2])

lemma dict_update_new:
  "distinct (map fst e) \<Longrightarrow> (nm, p) \<in> set e \<Longrightarrow> map_of (dict_update d e) nm = Some p"
  by (simp add: dict_update_map_of map_add_def)

lemma usage_fold_keys:
  "fst ` set (fold (\<lambda>key acc. dict_add acc key (f key)) ks u) = fst ` set u \<union> set ks"
  by (induction ks arbitrary: u) (auto simp: dict_add_keys)

text \<open>
  When every symbol of the sequence stands for a raw sequence and every pair of the reverse
  lookup is the right-hand side of its rule, the rewriter's output stands for the same raw
  sequence as its input.
\<close>

lemma rewrite_step_dens:
  assumes i: "i < length string"
    and d: "list_all2 (den m) string parts"
    and r: "\<forall>p nm. map_of rev_rules p = Some nm \<longrightarrow> m nm = Some p"
    and a: "i + (if skip_next_element st then 1 else 0) \<le> length string"
    and h: "\<exists>pn. list_all2 (den m) (new_string st) pn \<and>
              concat pn = concat (take (i + (if skip_next_element st then 1 else 0)) parts)"
  shows "Suc i + (if skip_next_element (rewrite_step string rev_rules i st) then 1 else 0) \<le> length string \<and>
    (\<exists>pn. list_all2 (den m) (new_string (rewrite_step string rev_rules i st)) pn \<and>
       concat pn = concat (take (Suc i + (if skip_next_element (rewrite_step string rev_rules i st) then 1 else 0)) parts))"
proof -
  obtain pn where pn: "list_all2 (den m) (new_string st) pn"
    "concat pn = concat (take (i + (if skip_next_element st then 1 else 0)) parts)"
    using h by blast
  have len: "length parts = length string" using d by (simp add: list_all2_lengthD)
  have di: "den m (string ! i) (parts ! i)" using d i by (simp add: list_all2_nthD)
  have keep: "list_all2 (den m) (new_string st @ [string ! i]) (pn @ [parts ! i])"
    using pn(1) di by (simp add: list_all2_appendI)
  have tk: "concat (take (Suc i) parts) = concat (take i parts) @ parts ! i"
    using i len by (simp add: take_Suc_conv_app_nth)
  show ?thesis
  proof (cases "skip_next_element st")
    case True
    then show ?thesis using a pn by (auto simp: rewrite_step_def)
  next
    case ns: False
    show ?thesis
    proof (cases "int i = int (length string) - 1")
      case True
      then have st': "rewrite_step string rev_rules i st = st\<lparr>new_string := new_string st @ [string ! i]\<rparr>"
        using ns by (simp add: rewrite_step_def)
      have "concat (pn @ [parts ! i]) = concat (take (Suc i) parts)"
        using pn(2) ns tk by simp
      then show ?thesis using st' ns i keep by auto
    next
      case nl: False
      then have lt: "Suc i < length string" using i by auto
      show ?thesis
      proof (cases "map_of rev_rules (string ! i, string ! (i + 1))")
        case None
        then have st': "rewrite_step string rev_rules i st = st\<lparr>new_string := new_string st @ [string ! i]\<rparr>"
          using ns nl by (simp add: rewrite_step_def)
        have "concat (pn @ [parts ! i]) = concat (take (Suc i) parts)"
          using pn(2) ns tk by simp
        then show ?thesis using st' ns i keep by auto
      next
        case (Some result)
        then have st': "rewrite_step string rev_rules i st =
            st\<lparr>rules_usage_count := dict_add (rules_usage_count st) result 1,
               new_string := new_string st @ [result], skip_next_element := True\<rparr>"
          using ns nl by (simp add: rewrite_step_def)
        have mr: "m result = Some (string ! i, string ! (i + 1))" using r Some by blast
        have dj: "den m (string ! (i + 1)) (parts ! (i + 1))" using d lt by (simp add: list_all2_nthD)
        have "den m result (parts ! i @ parts ! (i + 1))" using mr di dj by (rule den.node)
        then have l2: "list_all2 (den m) (new_string st @ [result]) (pn @ [parts ! i @ parts ! (i + 1)])"
          using pn(1) by (simp add: list_all2_appendI)
        have "concat (take (Suc (Suc i)) parts) = concat (take i parts) @ parts ! i @ parts ! (i + 1)"
          using lt len tk by (simp add: take_Suc_conv_app_nth[of "Suc i"])
        then have "concat (pn @ [parts ! i @ parts ! (i + 1)]) = concat (take (Suc i + 1) parts)"
          using pn(2) ns by simp
        then show ?thesis using st' lt l2 by auto
      qed
    qed
  qed
qed

lemma rewrite_scan_dens:
  assumes d: "list_all2 (den m) string parts"
    and r: "\<forall>p nm. map_of rev_rules p = Some nm \<longrightarrow> m nm = Some p"
  shows "\<exists>pn. list_all2 (den m) (new_string (rewrite_scan string rev_rules)) pn \<and> concat pn = concat parts"
proof -
  let ?P = "\<lambda>i st. i + (if skip_next_element st then 1 else 0) \<le> length string \<and>
    (\<exists>pn. list_all2 (den m) (new_string st) pn \<and>
       concat pn = concat (take (i + (if skip_next_element st then 1 else 0)) parts))"
  have "?P (length string) (fold (rewrite_step string rev_rules) [0..<length string] rewrite_init)"
  proof (rule fold_upt_invariant[where P = ?P])
    show "?P 0 rewrite_init" by (simp add: rewrite_init_def)
  next
    fix i and st :: rewrite_state
    assume "i < length string" and "?P i st"
    then show "?P (Suc i) (rewrite_step string rev_rules i st)"
      using rewrite_step_dens[OF _ d r, of i st] by blast
  qed
  then have p: "?P (length string) (rewrite_scan string rev_rules)"
    unfolding rewrite_scan_def .
  then have ns: "\<not> skip_next_element (rewrite_scan string rev_rules)"
    by (auto split: if_splits)
  have "length parts = length string" using d by (simp add: list_all2_lengthD)
  then show ?thesis using p ns by auto
qed

subsection \<open>The invariant of a run; the entry point returns\<close>

lemma run_inv_init: "run_inv actions self [] [] actions"
proof -
  have "list_all2 (den (map_of [])) actions (map (\<lambda>y. [y]) actions)"
    by (induction actions) (auto simp: den.leaf)
  moreover have "concat (map (\<lambda>y. [y]) actions) = actions"
    by (induction actions) auto
  ultimately show ?thesis unfolding run_inv_def by auto
qed

lemma run_inv_step:
  assumes ints: "\<forall>y\<in>set actions. is_Int y" and inv: "run_inv actions s a u x"
  shows "run_inv actions (fst (loop_body s a u x)) (fst (snd (loop_body s a u x)))
           (fst (snd (snd (loop_body s a u x)))) (snd (snd (snd (loop_body s a u x))))"
proof -
  let ?st = "layer_scan s x"
  let ?rls = "layer_rules ?st"
  let ?rr = "invert_rules ?rls"
  let ?a' = "dict_update a ?rls"
  let ?m = "map_of a" and ?m' = "map_of ?a'"
  let ?rs = "rewrite_scan x ?rr"
  obtain parts where parts: "list_all2 (den ?m) x parts" "concat parts = actions"
    using inv unfolding run_inv_def by blast
  have names: "\<forall>nm\<in>fst ` set a. \<exists>j<next_rule_name_ix s. nm = rule_name j"
    using inv unfolding run_inv_def by blast
  have used: "\<forall>key\<in>fst ` set u. \<exists>xs. den ?m key xs \<and> set xs \<subseteq> set actions"
    using inv unfolding run_inv_def by blast
  have dist: "distinct (map fst ?rls)"
    using layer_scan_names[of s x] by blast
  have new_names: "\<forall>nm\<in>fst ` set ?rls.
      \<exists>j. next_rule_name_ix s \<le> j \<and> j < next_rule_name_ix (engine ?st) \<and> nm = rule_name j"
    using layer_scan_names[of s x] by blast
  have mono: "next_rule_name_ix s \<le> next_rule_name_ix (engine ?st)"
    using layer_scan_names[of s x] by blast
  have names': "\<forall>nm\<in>fst ` set ?a'. \<exists>j<next_rule_name_ix (engine ?st). nm = rule_name j"
  proof
    fix nm assume "nm \<in> fst ` set ?a'"
    then consider "nm \<in> fst ` set a" | "nm \<in> fst ` set ?rls"
      by (auto simp: dict_update_keys)
    then show "\<exists>j<next_rule_name_ix (engine ?st). nm = rule_name j"
    proof cases
      case 1
      then obtain j where "j < next_rule_name_ix s" "nm = rule_name j" using names by blast
      then have "j < next_rule_name_ix (engine ?st)" using mono by simp
      then show ?thesis using \<open>nm = rule_name j\<close> by blast
    next
      case 2
      then show ?thesis using new_names by blast
    qed
  qed
  have le: "?m \<subseteq>\<^sub>m ?m'"
    unfolding map_le_def
  proof
    fix nm assume "nm \<in> dom ?m"
    then have "nm \<in> fst ` set a" by (simp add: dom_map_of_conv_image_fst)
    then obtain j where j: "j < next_rule_name_ix s" "nm = rule_name j" using names by blast
    have "nm \<notin> fst ` set ?rls"
    proof
      assume "nm \<in> fst ` set ?rls"
      then obtain j' where j': "next_rule_name_ix s \<le> j'" "nm = rule_name j'"
        using new_names by blast
      then have "j = j'" using j rule_name_inj by simp
      then show False using j j' by simp
    qed
    then show "?m nm = ?m' nm" using dist by (simp add: dict_update_old)
  qed
  have raw: "\<forall>y\<in>set actions. ?m' y = None"
  proof
    fix y assume "y \<in> set actions"
    then have "is_Int y" using ints by blast
    have "y \<notin> fst ` set ?a'"
    proof
      assume "y \<in> fst ` set ?a'"
      then obtain j where "y = rule_name j" using names' by blast
      then show False using \<open>is_Int y\<close> rule_name_not_Int[of j] by simp
    qed
    then show "?m' y = None" by (simp add: map_of_eq_None_iff)
  qed
  have up: "den ?m' sy xs" if "den ?m sy xs" "set xs \<subseteq> set actions" for sy xs
  proof -
    have "\<forall>y\<in>set xs. ?m' y = None"
    proof
      fix y assume "y \<in> set xs"
      then have "y \<in> set actions" using that(2) by (rule subsetD[rotated])
      then show "?m' y = None" using raw by (rule bspec[rotated])
    qed
    then show ?thesis by (rule den_mono[OF that(1) le])
  qed
  have parts': "list_all2 (den ?m') x parts"
  proof (rule list.rel_mono_strong[OF parts(1)])
    fix sy xs assume "xs \<in> set parts" "den ?m sy xs"
    moreover from \<open>xs \<in> set parts\<close> have "set xs \<subseteq> set actions" using parts(2) by auto
    ultimately show "den ?m' sy xs" using up by blast
  qed
  have len: "length parts = length x" using parts(1) by (simp add: list_all2_lengthD)
  have rr: "\<forall>p nm. map_of ?rr p = Some nm \<longrightarrow> ?m' nm = Some p"
  proof (intro allI impI)
    fix p nm assume "map_of ?rr p = Some nm"
    then have "(nm, p) \<in> set ?rls" by (rule invert_rules_lookup)
    then show "?m' nm = Some p" by (rule dict_update_new[OF dist])
  qed
  obtain pn where pn: "list_all2 (den ?m') (new_string ?rs) pn" "concat pn = concat parts"
    using rewrite_scan_dens[OF parts' rr] by blast
  have fired: "\<exists>xs. den ?m' key xs \<and> set xs \<subseteq> set actions"
    if kin: "key \<in> fst ` set (rules_usage_count ?rs)" for key
  proof -
    obtain j where j: "j + 1 < length x" "map_of ?rr (x ! j, x ! (j + 1)) = Some key"
      using rewrite_scan_usage[of x ?rr, rule_format, OF kin] by blast
    have mk: "?m' key = Some (x ! j, x ! (j + 1))" using rr[rule_format, OF j(2)] .
    have d1: "den ?m' (x ! j) (parts ! j)" using list_all2_nthD[OF parts', of j] j(1) by simp
    have d2: "den ?m' (x ! (j + 1)) (parts ! (j + 1))"
      using list_all2_nthD[OF parts', of "j + 1"] j(1) by simp
    have dn: "den ?m' key (parts ! j @ parts ! (j + 1))" using mk d1 d2 by (rule den.node)
    have "parts ! j \<in> set parts" "parts ! (j + 1) \<in> set parts" using j(1) len by simp_all
    then have "set (parts ! j @ parts ! (j + 1)) \<subseteq> set actions" using parts(2) by auto
    then show ?thesis using dn by blast
  qed
  have used': "\<forall>key\<in>fst ` set (fst (snd (snd (loop_body s a u x)))).
      \<exists>xs. den ?m' key xs \<and> set xs \<subseteq> set actions"
  proof
    fix key assume "key \<in> fst ` set (fst (snd (snd (loop_body s a u x))))"
    then have "key \<in> fst ` set u \<or> key \<in> fst ` set (rules_usage_count ?rs)"
      by (auto simp: loop_body_usage usage_fold_keys convert_a_string_using_reverse_rules_def Let_def)
    then show "\<exists>xs. den ?m' key xs \<and> set xs \<subseteq> set actions"
      using used up fired by blast
  qed
  have seq: "\<exists>parts. list_all2 (den ?m') (snd (snd (snd (loop_body s a u x)))) parts \<and> concat parts = actions"
    using pn parts(2)
    by (auto simp: loop_body_new convert_a_string_using_reverse_rules_def Let_def)
  show ?thesis
    unfolding run_inv_def
    using seq names' used' by (simp add: loop_body_rules loop_body_engine)
qed

lemma grammar_loop_run_inv:
  assumes "\<forall>y\<in>set actions. is_Int y"
  shows "\<exists>x' a' u' s'. grammar_loop self [] [] None actions = Some (x', a', u', s') \<and>
           run_inv actions s' a' u' x'"
  by (rule grammar_loop_rule[where I = "run_inv actions"]) (rule run_inv_init, rule run_inv_step[OF assms])

lemma build_action_usage_returns:
  "\<forall>key\<in>set keys. \<exists>xs. den (map_of a) key xs \<Longrightarrow> \<exists>au. build_action_usage a u keys acc = Some au"
  by (induction keys arbitrary: acc) (auto simp: convert_symbol_den)

text \<open>
  On a non-empty list of integers the entry point returns, whatever \<open>k\<close> is, and the symbols
  of the final sequence expand to the input.
\<close>

lemma generate_action_grammar_returns:
  assumes ne: "actions \<noteq> []" and ints: "\<forall>y\<in>set actions. is_Int y"
  shows "\<exists>final all_rules au self'.
           generate_action_grammar self actions = Some (Inr ((final, all_rules, au), self')) \<and>
           reconstruct all_rules final = Some actions"
proof -
  obtain x' a' u' s' where loop: "grammar_loop self [] [] None actions = Some (x', a', u', s')"
    and inv: "run_inv actions s' a' u' x'"
    using grammar_loop_run_inv[OF ints] by blast
  obtain parts where parts: "list_all2 (den (map_of a')) x' parts" "concat parts = actions"
    using inv unfolding run_inv_def by blast
  have "\<forall>key\<in>set (map fst u'). \<exists>xs. den (map_of a') key xs"
    using inv unfolding run_inv_def by auto
  then obtain au where au: "build_action_usage a' u' (map fst u') [] = Some au"
    using build_action_usage_returns by blast
  have hd: "is_Int (hd actions)" using ne ints by simp
  have "generate_action_grammar self actions = Some (Inr ((x', a', au), s'))"
    using ne hd loop au by (simp add: generate_action_grammar_def)
  moreover have "reconstruct a' x' = Some actions"
    using reconstruct_dens[OF parts(1)] parts(2) by simp
  ultimately show ?thesis by blast
qed

section \<open>Properties of the specification\<close>

text \<open>
  C7 (threshold respect). A pair of adjacent symbols that occurs fewer than \<open>k\<close> times in
  the sequence a layer scans, counted plainly over all adjacent positions (before the
  overlap skip and the decrement), is not the right-hand side of any rule the layer
  builder returns. This holds for every sequence and every engine, so for every layer.
\<close>

theorem threshold_respect:
  "int (pair_occurrences string p) < k self \<Longrightarrow>
     p \<notin> snd ` set (fst (fst (generate_1_layer_of_rules self string)))"
  using layer_scan_counts[of self string]
  by (auto simp: generate_1_layer_of_rules_def Let_def)

theorem threshold_respect_witness:
  "int (pair_occurrences [PyInt 0, PyInt 1, PyInt 0, PyInt 1, PyInt 2] (PyInt 1, PyInt 0))
      < k (init 2 (PyStr ''/'')) \<and>
   (PyInt 1, PyInt 0) \<notin> snd ` set (fst (fst (generate_1_layer_of_rules (init 2 (PyStr ''/''))
      [PyInt 0, PyInt 1, PyInt 0, PyInt 1, PyInt 2])))"
proof -
  have h: "int (pair_occurrences [PyInt 0, PyInt 1, PyInt 0, PyInt 1, PyInt 2] (PyInt 1, PyInt 0))
      < k (init 2 (PyStr ''/''))"
    by code_simp
  show ?thesis using h threshold_respect[OF h] by blast
qed

text \<open>
  C8 (length monotonicity). Whenever \<^const>\<open>generate_action_grammar\<close> returns, the final
  sequence is no longer than the input, and strictly shorter when the returned rule table
  is not empty, that is when at least one rule was minted during the run (the table starts
  empty and receives every minted rule). The rewriter's output is never longer than its
  input, for every sequence and every reverse lookup. No assumption on \<open>k\<close> is needed.
\<close>

theorem length_monotonicity:
  assumes "generate_action_grammar self actions = Some (Inr ((final, all_rules, au), self'))"
  shows "length final \<le> length actions \<and>
         (all_rules \<noteq> [] \<longrightarrow> length final < length actions) \<and>
         (\<forall>string rev_rules.
            length (fst (convert_a_string_using_reverse_rules string rev_rules)) \<le> length string)"
proof -
  obtain ru where "grammar_loop self [] [] None actions = Some (final, all_rules, ru, self')"
    using generate_action_grammar_loop[OF assms] by blast
  then show ?thesis using grammar_loop_lengths convert_length by blast
qed

theorem length_monotonicity_witness:
  "generate_action_grammar (init 2 (PyStr ''/'')) [PyInt 0, PyInt 1, PyInt 0, PyInt 1]
     = Some (Inr (([PyStr ''R0'', PyStr ''R0''], [(PyStr ''R0'', PyInt 0, PyInt 1)],
                   [([PyInt 0, PyInt 1], 2)]),
                  \<lparr>k = 2, end_of_episode_symbol = PyStr ''/'', next_rule_name_ix = 1\<rparr>)) \<and>
   [(PyStr ''R0'', PyInt 0, PyInt 1)] \<noteq> [] \<and>
   length [PyStr ''R0'', PyStr ''R0''] < length [PyInt 0, PyInt 1, PyInt 0, PyInt 1]"
proof -
  have run: "generate_action_grammar (init 2 (PyStr ''/'')) [PyInt 0, PyInt 1, PyInt 0, PyInt 1]
     = Some (Inr (([PyStr ''R0'', PyStr ''R0''], [(PyStr ''R0'', PyInt 0, PyInt 1)],
                   [([PyInt 0, PyInt 1], 2)]),
                  \<lparr>k = 2, end_of_episode_symbol = PyStr ''/'', next_rule_name_ix = 1\<rparr>))"
    by code_simp
  show ?thesis using run length_monotonicity[OF run] by blast
qed



end
